theory Spec2Isabelle
  imports Main "HOL-Library.Word" "HOL-Library.Sublist"
begin

section \<open>JavaScript strings\<close>

text \<open>
  A JavaScript string is a sequence of UTF-16 code units. Literals of the source are
  ASCII; \<open>js\<close> turns an Isabelle string literal into the code units it denotes.
\<close>

type_synonym jschar = "16 word"
type_synonym jsstring = "jschar list"

definition code :: "char \<Rightarrow> jschar" where
  "code c = of_nat (of_char c)"

definition js :: "string \<Rightarrow> jsstring" where
  "js s = map code s"

definition isAsciiLower :: "jschar \<Rightarrow> bool" where
  "isAsciiLower c = (0x61 \<le> c \<and> c \<le> 0x7A)"

definition isAsciiUpper :: "jschar \<Rightarrow> bool" where
  "isAsciiUpper c = (0x41 \<le> c \<and> c \<le> 0x5A)"

definition isDigit :: "jschar \<Rightarrow> bool" where
  "isDigit c = (0x30 \<le> c \<and> c \<le> 0x39)"

text \<open>The class \<open>\w\<close>: letters, digits and the underscore.\<close>

definition isWordChar :: "jschar \<Rightarrow> bool" where
  "isWordChar c = (isAsciiLower c \<or> isAsciiUpper c \<or> isDigit c \<or> c = 0x5F)"

text \<open>
  The class \<open>\s\<close>, which is also what \<open>String.prototype.trim\<close> strips: the
  WhiteSpace and LineTerminator code points of ECMAScript.
\<close>

definition isWhiteSpace :: "jschar \<Rightarrow> bool" where
  "isWhiteSpace c =
     (c = 0x09 \<or> c = 0x0A \<or> c = 0x0B \<or> c = 0x0C \<or> c = 0x0D \<or> c = 0x20 \<or> c = 0xA0
      \<or> c = 0x1680 \<or> (0x2000 \<le> c \<and> c \<le> 0x200A) \<or> c = 0x2028 \<or> c = 0x2029
      \<or> c = 0x202F \<or> c = 0x205F \<or> c = 0x3000 \<or> c = 0xFEFF)"

text \<open>
  Template literals print an index with \<open>Number::toString\<close>; for a natural number
  that is its decimal representation.
\<close>

fun numberToString :: "nat \<Rightarrow> jsstring" where
  "numberToString n =
     (if n < 10 then [0x30 + of_nat n]
      else numberToString (n div 10) @ [0x30 + of_nat (n mod 10)])"

declare numberToString.simps [simp del]

section \<open>Regular expressions\<close>

text \<open>
  The fragment of ECMAScript patterns the component uses, without the \<open>u\<close> and
  \<open>m\<close> flags. Capture groups record nothing that the code reads, so a group is its
  body.
\<close>

datatype classAtom =
    Single jschar
  | Range jschar jschar
  | ClassW
  | ClassS

datatype regex =
    Empty
  | Chr jschar
  | CharClass bool "classAtom list"
  | Seq regex regex
  | Alt regex regex
  | Star regex
  | WordBoundary
  | LineStart
  | LineEnd
  | NegLookahead regex

text \<open>\<open>r+\<close> is one \<open>r\<close> followed by \<open>r*\<close>.\<close>

definition Plus :: "regex \<Rightarrow> regex" where
  "Plus r = Seq r (Star r)"

text \<open>A run of pattern characters.\<close>

definition lit :: "string \<Rightarrow> regex" where
  "lit s = foldr (\<lambda>c r. Seq (Chr (code c)) r) s Empty"

text \<open>\<open>a|b|c\<close> tries its alternatives from left to right.\<close>

fun alts :: "regex list \<Rightarrow> regex" where
  "alts [] = Empty"
| "alts [r] = r"
| "alts (r # rs) = Alt r (alts rs)"

text \<open>
  Canonicalize, for a pattern without the \<open>u\<close> flag: with \<open>ignoreCase\<close> a code
  unit is compared by its upper-case form. The patterns of the component contain ASCII
  characters only, and Canonicalize never maps a code unit outside ASCII to one inside,
  so the ASCII letters are the only code units whose comparison the flag changes.
\<close>

definition canonicalize :: "bool \<Rightarrow> jschar \<Rightarrow> jschar" where
  "canonicalize ic c = (if ic \<and> isAsciiLower c then c - 0x20 else c)"

fun atomContains :: "classAtom \<Rightarrow> jschar \<Rightarrow> bool" where
  "atomContains (Single a) c = (c = a)"
| "atomContains (Range lo hi) c = (lo \<le> c \<and> c \<le> hi)"
| "atomContains ClassW c = isWordChar c"
| "atomContains ClassS c = isWhiteSpace c"

text \<open>
  The code units whose canonical form is that of \<open>c\<close>: \<open>c\<close> itself and, with
  \<open>ignoreCase\<close>, the same letter in the other case.
\<close>

definition caseVariants :: "bool \<Rightarrow> jschar \<Rightarrow> jschar list" where
  "caseVariants ic c =
     (if ic \<and> isAsciiLower c then [c, c - 0x20]
      else if ic \<and> isAsciiUpper c then [c, c + 0x20]
      else [c])"

text \<open>
  CharacterSetMatcher: the set matches \<open>c\<close> when one of its members has the canonical
  form of \<open>c\<close>; \<open>invert\<close> negates the outcome.
\<close>

definition classMatches :: "bool \<Rightarrow> bool \<Rightarrow> classAtom list \<Rightarrow> jschar \<Rightarrow> bool" where
  "classMatches ic invert atoms c =
     (list_ex (\<lambda>a. list_ex (\<lambda>v. atomContains a v) (caseVariants ic c)) atoms \<noteq> invert)"

text \<open>
  A position in the subject string: the code units before it, nearest first, and the
  code units from it on. Its index is the length of the first component.
\<close>

type_synonym pos = "jschar list \<times> jschar list"

definition endIndex :: "pos \<Rightarrow> nat" where
  "endIndex p = length (fst p)"

definition posAt :: "jsstring \<Rightarrow> nat \<Rightarrow> pos" where
  "posAt s i = (rev (take i s), drop i s)"

text \<open>
  The assertion \<open>\b\<close>: exactly one of the code units before and after the position is
  a word character (the ends of the string count as non-word).
\<close>

fun isWordBoundary :: "pos \<Rightarrow> bool" where
  "isWordBoundary (b, a) =
     ((case b of [] \<Rightarrow> False | x # _ \<Rightarrow> isWordChar x)
      \<noteq> (case a of [] \<Rightarrow> False | y # _ \<Rightarrow> isWordChar y))"

text \<open>
  The backtracking matcher of the ECMAScript specification, in continuation-passing
  style: \<open>matcher ic r p k\<close> matches \<open>r\<close> at \<open>p\<close> and hands the position it
  reaches to \<open>k\<close>; when \<open>k\<close> fails it tries the next way of matching \<open>r\<close>.
  A greedy star prefers one more iteration, and gives up an iteration that consumed
  nothing.
\<close>

fun matcher :: "bool \<Rightarrow> regex \<Rightarrow> pos \<Rightarrow> (pos \<Rightarrow> pos option) \<Rightarrow> pos option" where
  "matcher ic Empty p k = k p"
| "matcher ic (Chr c) (b, []) k = None"
| "matcher ic (Chr c) (b, x # a) k =
     (if canonicalize ic c = canonicalize ic x then k (x # b, a) else None)"
| "matcher ic (CharClass invert atoms) (b, []) k = None"
| "matcher ic (CharClass invert atoms) (b, x # a) k =
     (if classMatches ic invert atoms x then k (x # b, a) else None)"
| "matcher ic (Seq r1 r2) p k = matcher ic r1 p (\<lambda>q. matcher ic r2 q k)"
| "matcher ic (Alt r1 r2) p k =
     (case matcher ic r1 p k of Some e \<Rightarrow> Some e | None \<Rightarrow> matcher ic r2 p k)"
| "matcher ic (Star r) p k =
     (case matcher ic r p
             (\<lambda>q. if length (snd q) < length (snd p) then matcher ic (Star r) q k else None)
      of Some e \<Rightarrow> Some e | None \<Rightarrow> k p)"
| "matcher ic WordBoundary p k = (if isWordBoundary p then k p else None)"
| "matcher ic LineStart p k = (if fst p = [] then k p else None)"
| "matcher ic LineEnd p k = (if snd p = [] then k p else None)"
| "matcher ic (NegLookahead r) p k =
     (case matcher ic r p Some of Some e \<Rightarrow> None | None \<Rightarrow> k p)"

declare matcher.simps(8) [simp del]

text \<open>
  A RegExp object: its pattern, the two flags the component uses, and the mutable
  \<open>lastIndex\<close> property.
\<close>

record regexp =
  pattern :: regex
  global :: bool
  ignoreCase :: bool
  lastIndex :: nat

text \<open>
  RegExpBuiltinExec: starting at index \<open>i\<close>, try each index up to the length of the
  string, and return the end index of the first match.
\<close>

function execFrom :: "regex \<Rightarrow> bool \<Rightarrow> jsstring \<Rightarrow> nat \<Rightarrow> nat option" where
  "execFrom r ic s i =
     (if i > length s then None
      else case matcher ic r (posAt s i) Some of
             Some q \<Rightarrow> Some (endIndex q)
           | None \<Rightarrow> execFrom r ic s (i + 1))"
  by pat_completeness auto
termination
  by (relation "measure (\<lambda>(r, ic, s, i). Suc (length s) - i)") auto

declare execFrom.simps [simp del]

text \<open>
  \<open>RegExp.prototype.test\<close>: a global RegExp starts at its \<open>lastIndex\<close>, stores the
  end of the match there on success and resets it to 0 on failure; a RegExp that is not
  global always starts at 0 and leaves \<open>lastIndex\<close> alone. The result is the answer and
  the RegExp object after the call.
\<close>

definition test :: "regexp \<Rightarrow> jsstring \<Rightarrow> bool \<times> regexp" where
  "test R s =
     (case execFrom (pattern R) (ignoreCase R) s (if global R then lastIndex R else 0) of
        None \<Rightarrow> (False, if global R then R\<lparr>lastIndex := 0\<rparr> else R)
      | Some e \<Rightarrow> (True, if global R then R\<lparr>lastIndex := e\<rparr> else R))"

section \<open>The upload component\<close>

definition MAX_FILE_SIZE :: nat where
  "MAX_FILE_SIZE = 10 * 1024 * 1024"

definition MAX_ROWS :: nat where
  "MAX_ROWS = 100000"

record report =
  isValid :: bool
  errors :: "jsstring list"

subsection \<open>The patterns\<close>

text \<open>\<^verbatim>\<open>/^[a-zA-Z0-9_\s]+$/\<close>\<close>

definition headerPattern :: regexp where
  "headerPattern =
     \<lparr>pattern =
        Seq LineStart
          (Seq (Plus (CharClass False
                  [Range (code CHR ''a'') (code CHR ''z''), Range (code CHR ''A'') (code CHR ''Z''),
                   Range (code CHR ''0'') (code CHR ''9''), Single (code CHR ''_''), ClassS]))
               LineEnd),
      global = False, ignoreCase = False, lastIndex = 0\<rparr>"

text \<open>
  \<^verbatim>\<open>/(\b(SELECT|INSERT|UPDATE|DELETE|DROP|CREATE|ALTER|EXEC|UNION)\b)|(--|;|\/\*|\*\/|xp_|sp_)/gi\<close>
\<close>

definition sqlPatterns :: regexp where
  "sqlPatterns =
     \<lparr>pattern =
        Alt (Seq WordBoundary
               (Seq (alts (map lit [''SELECT'', ''INSERT'', ''UPDATE'', ''DELETE'', ''DROP'',
                                    ''CREATE'', ''ALTER'', ''EXEC'', ''UNION'']))
                    WordBoundary))
            (alts (map lit [''--'', '';'', ''/*'', ''*/'', ''xp_'', ''sp_''])),
      global = True, ignoreCase = True, lastIndex = 0\<rparr>"

text \<open>
  \<^verbatim>\<open>/<script\b[^<]*(?:(?!<\/script>)<[^<]*)*<\/script>|javascript:|on\w+\s*=/gi\<close>
\<close>

definition notLt :: regex where
  "notLt = CharClass True [Single (code CHR ''<'')]"

definition scriptPatterns :: regexp where
  "scriptPatterns =
     \<lparr>pattern =
        Alt (Seq (lit ''<script'')
               (Seq WordBoundary
                  (Seq (Star notLt)
                     (Seq (Star (Seq (NegLookahead (lit ''</script>''))
                                     (Seq (Chr (code CHR ''<'')) (Star notLt))))
                          (lit ''</script>'')))))
            (Alt (lit ''javascript:'')
                 (Seq (lit ''on'')
                    (Seq (Plus (CharClass False [ClassW]))
                       (Seq (Star (CharClass False [ClassS])) (Chr (code CHR ''='')))))),
      global = True, ignoreCase = True, lastIndex = 0\<rparr>"

subsection \<open>validateCSVContent\<close>

definition headerMessage :: "nat \<Rightarrow> jsstring \<Rightarrow> jsstring" where
  "headerMessage index header =
     js ''Invalid header at column '' @ numberToString (index + 1) @ js '': '' @ [0x22]
       @ header @ [0x22]"

definition sqlMessage :: "nat \<Rightarrow> nat \<Rightarrow> jsstring" where
  "sqlMessage rowIndex colIndex =
     js ''Potential SQL injection detected at row '' @ numberToString (rowIndex + 1)
       @ js '', column '' @ numberToString (colIndex + 1)"

definition scriptMessage :: "nat \<Rightarrow> nat \<Rightarrow> jsstring" where
  "scriptMessage rowIndex colIndex =
     js ''Potential script injection detected at row '' @ numberToString (rowIndex + 1)
       @ js '', column '' @ numberToString (colIndex + 1)"

text \<open>
  \<open>headers.forEach((header, index) => ...)\<close>: the remaining headers, the index of the
  first of them, and the errors so far. \<open>headerPattern\<close> is not global, so \<open>test\<close>
  leaves it as it is.
\<close>

fun checkHeaders :: "jsstring list \<Rightarrow> nat \<Rightarrow> jsstring list \<Rightarrow> jsstring list" where
  "checkHeaders [] index errs = errs"
| "checkHeaders (header # rest) index errs =
     checkHeaders rest (index + 1)
       (if \<not> fst (test headerPattern header) then errs @ [headerMessage index header]
        else errs)"

text \<open>
  The injection scan keeps three things between cells: the two global RegExp objects,
  whose \<open>lastIndex\<close> every \<open>test\<close> updates, and the errors so far.
\<close>

record scan =
  sqlRe :: regexp
  scriptRe :: regexp
  scanErrors :: "jsstring list"

definition scanCell :: "nat \<Rightarrow> nat \<Rightarrow> jsstring \<Rightarrow> scan \<Rightarrow> scan" where
  "scanCell rowIndex colIndex cellStr st =
     (let (sqlHit, sql') = test (sqlRe st) cellStr;
          errs1 = (if sqlHit then scanErrors st @ [sqlMessage rowIndex colIndex]
                   else scanErrors st);
          (scriptHit, script') = test (scriptRe st) cellStr;
          errs2 = (if scriptHit then errs1 @ [scriptMessage rowIndex colIndex] else errs1)
      in \<lparr>sqlRe = sql', scriptRe = script', scanErrors = errs2\<rparr>)"

fun scanRow :: "jsstring list \<Rightarrow> nat \<Rightarrow> nat \<Rightarrow> scan \<Rightarrow> scan" where
  "scanRow [] rowIndex colIndex st = st"
| "scanRow (cell # rest) rowIndex colIndex st =
     scanRow rest rowIndex (colIndex + 1) (scanCell rowIndex colIndex cell st)"

fun scanRows :: "jsstring list list \<Rightarrow> nat \<Rightarrow> scan \<Rightarrow> scan" where
  "scanRows [] rowIndex st = st"
| "scanRows (row # rest) rowIndex st =
     scanRows rest (rowIndex + 1) (scanRow row rowIndex 0 st)"

text \<open>
  \<open>toLocaleString\<close> formats the row limit in the host's locale (\<open>100,000\<close> in
  en-US); it is a parameter of the model.
\<close>

definition validateCSVContent :: "(nat \<Rightarrow> jsstring) \<Rightarrow> jsstring list list \<Rightarrow> report" where
  "validateCSVContent toLocaleString data =
     (if length data = 0 then \<lparr>isValid = False, errors = [js ''CSV file is empty'']\<rparr>
      else
        let errs1 = (if length data > MAX_ROWS
                     then [js ''CSV exceeds maximum row limit of '' @ toLocaleString MAX_ROWS]
                     else []);
            headers = hd data;
            errs2 = checkHeaders headers 0 errs1;
            st = scanRows data 0
                   \<lparr>sqlRe = sqlPatterns, scriptRe = scriptPatterns, scanErrors = errs2\<rparr>
        in \<lparr>isValid = (length (scanErrors st) = 0), errors = scanErrors st\<rparr>)"

subsection \<open>sanitizeCell\<close>

text \<open>
  \<open>s.replace(re, "")\<close> for a global \<open>re\<close>: every match is cut out, and the search
  goes on where the match ended; a code unit at which nothing (or only the empty string)
  matches is kept.
\<close>

function removeMatches :: "regex \<Rightarrow> bool \<Rightarrow> pos \<Rightarrow> jsstring" where
  "removeMatches r ic (b, a) =
     (case matcher ic r (b, a) Some of
        Some q \<Rightarrow>
          if length (snd q) < length a then removeMatches r ic q
          else (case a of [] \<Rightarrow> [] | x # a' \<Rightarrow> x # removeMatches r ic (x # b, a'))
      | None \<Rightarrow> (case a of [] \<Rightarrow> [] | x # a' \<Rightarrow> x # removeMatches r ic (x # b, a')))"
  by pat_completeness auto
termination
  by (relation "measure (\<lambda>(r, ic, p). length (snd p))") auto

declare removeMatches.simps [simp del]

definition replaceWithEmpty :: "regexp \<Rightarrow> jsstring \<Rightarrow> jsstring" where
  "replaceWithEmpty R s = removeMatches (pattern R) (ignoreCase R) ([], s)"

text \<open>\<^verbatim>\<open>/[<>]/g\<close> and \<^verbatim>\<open>/['"`;]/g\<close>\<close>

definition anglePattern :: regexp where
  "anglePattern =
     \<lparr>pattern = CharClass False [Single (code CHR ''<''), Single (code CHR ''>'')],
      global = True, ignoreCase = False, lastIndex = 0\<rparr>"

definition quotePattern :: regexp where
  "quotePattern =
     \<lparr>pattern = CharClass False [Single 0x27, Single 0x22, Single 0x60, Single (code CHR '';'')],
      global = True, ignoreCase = False, lastIndex = 0\<rparr>"

definition trim :: "jsstring \<Rightarrow> jsstring" where
  "trim s = rev (dropWhile isWhiteSpace (rev (dropWhile isWhiteSpace s)))"

definition sanitizeCell :: "jsstring \<Rightarrow> jsstring" where
  "sanitizeCell v = trim (replaceWithEmpty quotePattern (replaceWithEmpty anglePattern v))"

subsection \<open>processFile\<close>

record File =
  fileName :: jsstring
  fileSize :: nat

text \<open>What the parser hands to its callbacks: \<open>complete\<close> with the rows, or \<open>error\<close>.\<close>

datatype parseResult = Complete "jsstring list list" | ParseError jsstring

text \<open>
  The effects of one call, in order: a toast (title, description, whether its variant is
  destructive), the three state setters, and the call of the parser.
\<close>

datatype effect =
    Toast jsstring "jsstring option" bool
  | SetIsValidating bool
  | SetFile "File option"
  | SetPreview "jsstring list list"
  | PapaParse File

definition endsWith :: "jsstring \<Rightarrow> jsstring \<Rightarrow> bool" where
  "endsWith s searchString =
     (length searchString \<le> length s
      \<and> drop (length s - length searchString) s = searchString)"

text \<open>\<open>errors[0]\<close> is undefined for an empty array.\<close>

definition firstError :: "jsstring list \<Rightarrow> jsstring option" where
  "firstError errs = (case errs of [] \<Rightarrow> None | e # _ \<Rightarrow> Some e)"

definition onComplete :: "(nat \<Rightarrow> jsstring) \<Rightarrow> jsstring list list \<Rightarrow> effect list" where
  "onComplete toLocaleString data =
     (let validation = validateCSVContent toLocaleString data in
      if \<not> isValid validation
      then [Toast (js ''Security validation failed'') (firstError (errors validation)) True,
            SetIsValidating False, SetFile None]
      else
        let sanitizedData = map (map sanitizeCell) data
        in [SetPreview (take 5 sanitizedData), SetIsValidating False,
            Toast (js ''File validated'') (Some (js ''CSV file passed security checks'')) False])"

definition onError :: "jsstring \<Rightarrow> effect list" where
  "onError message =
     [Toast (js ''Parse error'') (Some message) True, SetIsValidating False, SetFile None]"

text \<open>
  \<open>processFile\<close>, with the outcome of the parse as an argument: the parser is an
  external collaborator, called once the two guards have passed.
\<close>

definition processFile :: "(nat \<Rightarrow> jsstring) \<Rightarrow> File \<Rightarrow> parseResult \<Rightarrow> effect list" where
  "processFile toLocaleString selectedFile results =
     (if fileSize selectedFile > MAX_FILE_SIZE
      then [Toast (js ''File too large'')
              (Some (js ''Maximum file size is ''
                       @ numberToString (MAX_FILE_SIZE div 1024 div 1024) @ js ''MB''))
              True]
      else if \<not> endsWith (fileName selectedFile) (js ''.csv'')
      then [Toast (js ''Invalid file type'') (Some (js ''Please upload a CSV file'')) True]
      else [SetIsValidating True, SetFile (Some selectedFile), PapaParse selectedFile]
           @ (case results of
                Complete data \<Rightarrow> onComplete toLocaleString data
              | ParseError message \<Rightarrow> onError message))"

text \<open>
  A \<open>toLocaleString\<close> for concrete runs: the en-US format, digits in groups of three
  separated by commas.
\<close>

fun toLocaleString_enUS :: "nat \<Rightarrow> jsstring" where
  "toLocaleString_enUS n =
     (if n < 1000 then numberToString n
      else toLocaleString_enUS (n div 1000) @ js '','' @
           [0x30 + of_nat (n mod 1000 div 100), 0x30 + of_nat (n mod 100 div 10),
            0x30 + of_nat (n mod 10)])"

declare toLocaleString_enUS.simps [simp del]

text \<open>The state in which the injection scan starts, and the row-limit check.\<close>

definition initScan :: "jsstring list \<Rightarrow> scan" where
  "initScan errs = \<lparr>sqlRe = sqlPatterns, scriptRe = scriptPatterns, scanErrors = errs\<rparr>"

definition limitErrors :: "(nat \<Rightarrow> jsstring) \<Rightarrow> jsstring list list \<Rightarrow> jsstring list" where
  "limitErrors toLocaleString data =
     (if length data > MAX_ROWS
      then [js ''CSV exceeds maximum row limit of '' @ toLocaleString MAX_ROWS] else [])"

text \<open>
  The characters of the class \<^verbatim>\<open>[a-zA-Z0-9_\s]\<close>, and the cells that
  \<^verbatim>\<open>/^[a-zA-Z0-9_\s]+$/\<close> accepts.
\<close>

definition headerChar :: "jschar \<Rightarrow> bool" where
  "headerChar c =
     (isAsciiLower c \<or> isAsciiUpper c \<or> isDigit c \<or> c = 0x5F \<or> isWhiteSpace c)"

definition headerCellOk :: "jsstring \<Rightarrow> bool" where
  "headerCellOk h = (h \<noteq> [] \<and> list_all headerChar h)"

text \<open>
  A cell matches a pattern class when a fresh RegExp of that class, searching from index
  0, finds a match in it.
\<close>

definition matchesClass :: "regexp \<Rightarrow> jsstring \<Rightarrow> bool" where
  "matchesClass R s = (execFrom (pattern R) (ignoreCase R) s 0 \<noteq> None)"

text \<open>
  The cells of a table in the order in which the two nested \<open>forEach\<close> visit them, each
  with its 0-based row and column index; one step of the scan; and the violations that
  a scan without memory would report for a cell.
\<close>

fun rowCells :: "jsstring list \<Rightarrow> nat \<Rightarrow> nat \<Rightarrow> (nat \<times> nat \<times> jsstring) list" where
  "rowCells [] rowIndex colIndex = []"
| "rowCells (cell # rest) rowIndex colIndex =
     (rowIndex, colIndex, cell) # rowCells rest rowIndex (colIndex + 1)"

fun tableCells :: "jsstring list list \<Rightarrow> nat \<Rightarrow> (nat \<times> nat \<times> jsstring) list" where
  "tableCells [] rowIndex = []"
| "tableCells (row # rest) rowIndex = rowCells row rowIndex 0 @ tableCells rest (rowIndex + 1)"

definition scanStep :: "nat \<times> nat \<times> jsstring \<Rightarrow> scan \<Rightarrow> scan" where
  "scanStep = (\<lambda>(r, c, x). scanCell r c x)"

definition statelessHits :: "nat \<times> nat \<times> jsstring \<Rightarrow> jsstring list" where
  "statelessHits = (\<lambda>(r, c, x).
     (if matchesClass sqlPatterns x then [sqlMessage r c] else [])
     @ (if matchesClass scriptPatterns x then [scriptMessage r c] else []))"

text \<open>The scan only ever changes the \<open>lastIndex\<close> of its two RegExp objects.\<close>

definition scanInv :: "scan \<Rightarrow> bool" where
  "scanInv st = ((\<exists>n. sqlRe st = sqlPatterns\<lparr>lastIndex := n\<rparr>)
                 \<and> (\<exists>m. scriptRe st = scriptPatterns\<lparr>lastIndex := m\<rparr>))"

section \<open>The checks accumulate\<close>

lemma scanCell_errors:
  "\<exists>ys. scanErrors (scanCell r c x st) = scanErrors st @ ys"
  by (simp add: scanCell_def Let_def split: prod.splits)

lemma scanCell_shift:
  "scanCell r c x (st\<lparr>scanErrors := es @ scanErrors st\<rparr>)
     = (scanCell r c x st)\<lparr>scanErrors := es @ scanErrors (scanCell r c x st)\<rparr>"
  by (simp add: scanCell_def Let_def split: prod.splits)

lemma scanRow_shift:
  "scanRow row r c (st\<lparr>scanErrors := es @ scanErrors st\<rparr>)
     = (scanRow row r c st)\<lparr>scanErrors := es @ scanErrors (scanRow row r c st)\<rparr>"
  by (induction row arbitrary: c st) (simp_all add: scanCell_shift)

lemma scanRows_shift:
  "scanRows rows r (st\<lparr>scanErrors := es @ scanErrors st\<rparr>)
     = (scanRows rows r st)\<lparr>scanErrors := es @ scanErrors (scanRows rows r st)\<rparr>"
  by (induction rows arbitrary: r st) (simp_all add: scanRow_shift)

lemma checkHeaders_append:
  "checkHeaders hs i errs = errs @ checkHeaders hs i []"
proof (induction hs arbitrary: i errs)
  case Nil
  show ?case by simp
next
  case (Cons h hs)
  show ?case
    using Cons.IH [of "Suc i" "errs @ [headerMessage i h]"] Cons.IH [of "Suc i" "[headerMessage i h]"]
      Cons.IH [of "Suc i" errs]
    by simp
qed

lemma validate_nonempty_errors:
  assumes "data \<noteq> []"
  shows "errors (validateCSVContent loc data)
           = limitErrors loc data @ checkHeaders (hd data) 0 []
               @ scanErrors (scanRows data 0 (initScan []))"
proof -
  let ?pre = "limitErrors loc data @ checkHeaders (hd data) 0 []"
  have "scanRows data 0 (initScan ?pre)
          = (scanRows data 0 (initScan []))\<lparr>scanErrors := ?pre @ scanErrors (scanRows data 0 (initScan []))\<rparr>"
    using scanRows_shift [of data 0 ?pre "initScan []"] by (simp add: initScan_def)
  moreover have "checkHeaders (hd data) 0 (limitErrors loc data) = ?pre"
    by (rule checkHeaders_append)
  ultimately show ?thesis
    using assms by (simp add: validateCSVContent_def Let_def limitErrors_def initScan_def)
qed

section \<open>Evaluation rules\<close>

lemma js_simps: "js [] = []" "js (c # cs) = code c # js cs"
  by (simp_all add: js_def)

lemmas char_defs = code_def isAsciiLower_def isAsciiUpper_def isDigit_def isWordChar_def
  isWhiteSpace_def canonicalize_def caseVariants_def classMatches_def

lemmas re_defs = sqlPatterns_def scriptPatterns_def headerPattern_def notLt_def Plus_def lit_def
  test_def execFrom.simps posAt_def endIndex_def matcher.simps(8)

lemma numberToString_10: "numberToString 10 = js ''10''"
  by (simp add: numberToString.simps js_simps code_def)

section \<open>Character sets under \<open>ignoreCase\<close>\<close>

text \<open>
  \<open>classMatches\<close> computes what CharacterSetMatcher asks for: some member of the set
  has the canonical form of the code unit at hand.
\<close>

lemma lower_upper: "isAsciiLower v \<Longrightarrow> isAsciiUpper (v - 0x20)"
  unfolding isAsciiLower_def isAsciiUpper_def
  by (simp add: word_le_nat_alt unat_sub) arith

lemma upper_lower: "isAsciiUpper v \<Longrightarrow> isAsciiLower (v + 0x20)"
  unfolding isAsciiLower_def isAsciiUpper_def
  by (simp add: word_le_nat_alt unat_word_ariths) 

lemma not_both: "isAsciiLower v \<Longrightarrow> \<not> isAsciiUpper v"
  unfolding isAsciiLower_def isAsciiUpper_def
  by (simp add: word_le_nat_alt) 

lemma caseVariants_canonical:
  "v \<in> set (caseVariants ic c) \<longleftrightarrow> canonicalize ic v = canonicalize ic c"
proof (cases ic)
  case False
  then show ?thesis by (auto simp: caseVariants_def canonicalize_def)
next
  case True
  consider "isAsciiLower c" | "isAsciiUpper c" "\<not> isAsciiLower c"
    | "\<not> isAsciiUpper c" "\<not> isAsciiLower c" by blast
  then show ?thesis
  proof cases
    case 1
    have "v - 0x20 = c - 0x20 \<longleftrightarrow> v = c" by simp
    moreover have "\<not> isAsciiLower (c - 0x20)" using lower_upper [OF 1] not_both by blast
    ultimately show ?thesis using True 1
      by (auto simp: caseVariants_def canonicalize_def)
  next
    case 2
    have "v - 0x20 = c \<longleftrightarrow> v = c + 0x20" by auto
    with True 2 upper_lower [OF 2(1)] show ?thesis
      by (auto simp: caseVariants_def canonicalize_def)
  next
    case 3
    have "v - 0x20 = c \<longleftrightarrow> v = c + 0x20" by auto
    moreover have "isAsciiLower v \<Longrightarrow> v - 0x20 \<noteq> c" using lower_upper [of v] 3 by auto
    ultimately show ?thesis using True 3
      by (auto simp: caseVariants_def canonicalize_def)
  qed
qed


lemma classMatches_canonical:
  "classMatches ic iv atoms c
     \<longleftrightarrow> ((\<exists>a \<in> set atoms. \<exists>v. atomContains a v \<and> canonicalize ic v = canonicalize ic c) \<noteq> iv)"
proof -
  have "list_ex (\<lambda>a. list_ex (\<lambda>v. atomContains a v) (caseVariants ic c)) atoms
          \<longleftrightarrow> (\<exists>a \<in> set atoms. \<exists>v. atomContains a v \<and> canonicalize ic v = canonicalize ic c)"
    unfolding list_ex_iff caseVariants_canonical [symmetric] by blast
  then show ?thesis by (simp add: classMatches_def)
qed

section \<open>The validation report\<close>

text \<open>
  Claim C9. For every parsed table, the report of \<open>validateCSVContent\<close> has
  \<open>isValid\<close> true if and only if its list of violations is empty.
\<close>

theorem isValid_iff_no_errors:
  "isValid (validateCSVContent loc data) \<longleftrightarrow> errors (validateCSVContent loc data) = []"
  by (simp add: validateCSVContent_def Let_def)

text \<open>
  Claim C5. A table with zero rows gets the report with \<open>isValid\<close> false and the single
  violation \<open>CSV file is empty\<close>, and nothing else is checked. It is the only case that
  returns early: for every other table the violations are those of the row-limit check,
  followed by those of the header check, followed by those of the injection scan.
\<close>

theorem empty_table_short_circuits:
  "validateCSVContent loc [] = \<lparr>isValid = False, errors = [js ''CSV file is empty'']\<rparr>
   \<and> (\<forall>data. data \<noteq> [] \<longrightarrow>
          errors (validateCSVContent loc data)
            = limitErrors loc data @ checkHeaders (hd data) 0 []
                @ scanErrors (scanRows data 0 (initScan [])))"
  using validate_nonempty_errors by (simp add: validateCSVContent_def)

theorem empty_table_short_circuits_witness:
  "validateCSVContent toLocaleString_enUS []
     = \<lparr>isValid = False, errors = [js ''CSV file is empty'']\<rparr>
   \<and> [[js ''a'']] \<noteq> []
   \<and> errors (validateCSVContent toLocaleString_enUS [[js ''a'']])
       = limitErrors toLocaleString_enUS [[js ''a'']] @ checkHeaders [js ''a''] 0 []
           @ scanErrors (scanRows [[js ''a'']] 0 (initScan []))"
  using empty_table_short_circuits [of toLocaleString_enUS] by simp

section \<open>The intake guards\<close>

lemma tooLarge:
  "fileSize f > MAX_FILE_SIZE \<Longrightarrow> processFile loc f res
        = [Toast (js ''File too large'') (Some (js ''Maximum file size is 10MB'')) True]"
  by (simp add: processFile_def MAX_FILE_SIZE_def numberToString_10 js_def)

text \<open>
  Claim C4. A file of more than 10,485,760 bytes is rejected with the toast
  \<open>File too large\<close> and the parser is not called; a file of at most 10,485,760 bytes,
  so one of exactly that size, never gets that toast.
\<close>

theorem oversize_rejected:
  "(fileSize f > 10485760 \<longrightarrow>
      processFile loc f res
        = [Toast (js ''File too large'') (Some (js ''Maximum file size is 10MB'')) True]
      \<and> (\<forall>g. PapaParse g \<notin> set (processFile loc f res)))
   \<and> (fileSize f \<le> 10485760 \<longrightarrow>
        (\<forall>d v. Toast (js ''File too large'') d v \<notin> set (processFile loc f res)))"
proof -
  have a: "fileSize f > 10485760 \<Longrightarrow> processFile loc f res
        = [Toast (js ''File too large'') (Some (js ''Maximum file size is 10MB'')) True]"
    using tooLarge [of f loc res] by (simp add: MAX_FILE_SIZE_def)
  have b: "Toast (js ''File too large'') d v \<notin> set (processFile loc f res)"
    if "fileSize f \<le> 10485760" for d v
    using that
    by (cases res)
       (auto simp: processFile_def MAX_FILE_SIZE_def onComplete_def onError_def Let_def
          js_simps code_def)
  show ?thesis using a b by auto
qed

theorem oversize_rejected_witness:
  "(10485760::nat) < 10485761
   \<and> processFile toLocaleString_enUS \<lparr>fileName = js ''big.csv'', fileSize = 10485761\<rparr>
        (Complete [[js ''a'']])
       = [Toast (js ''File too large'') (Some (js ''Maximum file size is 10MB'')) True]
   \<and> (10485760::nat) \<le> 10485760
   \<and> Toast (js ''File too large'') (Some (js ''Maximum file size is 10MB'')) True
       \<notin> set (processFile toLocaleString_enUS \<lparr>fileName = js ''big.csv'', fileSize = 10485760\<rparr>
                 (Complete [[js ''a'']]))"
  using oversize_rejected [of "\<lparr>fileName = js ''big.csv'', fileSize = 10485761\<rparr>"
          toLocaleString_enUS "Complete [[js ''a'']]"]
        oversize_rejected [of "\<lparr>fileName = js ''big.csv'', fileSize = 10485760\<rparr>"
          toLocaleString_enUS "Complete [[js ''a'']]"]
  by simp

text \<open>
  Claim C3, as stated: every file whose name does not end in \<open>.csv\<close> is rejected with
  the toast \<open>Invalid file type\<close>. The size is checked first, so a file that is also
  too large is rejected for its size instead.
\<close>

theorem extension_checked_after_size:
  "\<not> endsWith (js ''notes.txt'') (js ''.csv'')
   \<and> processFile toLocaleString_enUS \<lparr>fileName = js ''notes.txt'', fileSize = 11534336\<rparr>
        (Complete [])
       = [Toast (js ''File too large'') (Some (js ''Maximum file size is 10MB'')) True]
   \<and> Toast (js ''Invalid file type'') (Some (js ''Please upload a CSV file'')) True
       \<notin> set (processFile toLocaleString_enUS
                 \<lparr>fileName = js ''notes.txt'', fileSize = 11534336\<rparr> (Complete []))"
  by (simp add: endsWith_def js_simps code_def processFile_def MAX_FILE_SIZE_def
        numberToString.simps)

text \<open>
  Claim C3, amended. For a file whose name does not end in \<open>.csv\<close> (compared case by
  case, so \<open>.CSV\<close> does not count) the parser is never called; the file is rejected with
  \<open>Invalid file type\<close> when it has at most 10,485,760 bytes and with \<open>File too large\<close>
  when it has more.
\<close>

theorem non_csv_never_parsed:
  assumes "\<not> endsWith (fileName f) (js ''.csv'')"
  shows "processFile loc f res
           = (if fileSize f > 10485760
              then [Toast (js ''File too large'') (Some (js ''Maximum file size is 10MB'')) True]
              else [Toast (js ''Invalid file type'') (Some (js ''Please upload a CSV file'')) True])
         \<and> (\<forall>g. PapaParse g \<notin> set (processFile loc f res))"
  using assms tooLarge [of f loc res] by (simp add: processFile_def MAX_FILE_SIZE_def)

theorem non_csv_never_parsed_witness:
  "\<not> endsWith (js ''data.CSV'') (js ''.csv'')
   \<and> processFile toLocaleString_enUS \<lparr>fileName = js ''data.CSV'', fileSize = 2048\<rparr>
        (Complete [[js ''id'']])
       = [Toast (js ''Invalid file type'') (Some (js ''Please upload a CSV file'')) True]"
proof -
  have h: "\<not> endsWith (fileName \<lparr>fileName = js ''data.CSV'', fileSize = 2048\<rparr>) (js ''.csv'')"
    by (simp add: endsWith_def js_simps code_def)
  show ?thesis
    using h non_csv_never_parsed [OF h, of toLocaleString_enUS "Complete [[js ''id'']]"] by simp
qed

section \<open>The preview\<close>

lemma valid_abc:
  "isValid (validateCSVContent toLocaleString_enUS [[js ''a''], [js ''b''], [js ''c'']])"
  by (simp add: validateCSVContent_def js_simps char_defs re_defs scanCell_def MAX_ROWS_def)

text \<open>
  Claim C8. When a file passes the guards and its table is valid, the preview that is
  stored is the first five rows of the sanitized table, or all of them when there are
  fewer: it has \<open>min 5 n\<close> rows for a table of \<open>n\<close> rows (5 for 200 rows, 3 for 3 rows),
  and its row \<open>i\<close> is row \<open>i\<close> of the sanitized table.
\<close>

theorem preview_first_five:
  assumes "fileSize f \<le> 10485760" and "endsWith (fileName f) (js ''.csv'')"
    and "isValid (validateCSVContent loc data)"
  shows "\<exists>preview.
           processFile loc f (Complete data)
             = [SetIsValidating True, SetFile (Some f), PapaParse f, SetPreview preview,
                SetIsValidating False,
                Toast (js ''File validated'') (Some (js ''CSV file passed security checks'')) False]
           \<and> preview = take 5 (map (map sanitizeCell) data)
           \<and> length preview = min 5 (length data)
           \<and> (\<forall>i < length preview. preview ! i = map sanitizeCell (data ! i))
           \<and> (length data = 200 \<longrightarrow> length preview = 5)
           \<and> (length data = 3 \<longrightarrow> length preview = 3)"
  using assms by (simp add: processFile_def onComplete_def MAX_FILE_SIZE_def Let_def)

theorem preview_first_five_witness:
  "fileSize \<lparr>fileName = js ''t.csv'', fileSize = 6\<rparr> \<le> 10485760
   \<and> endsWith (fileName \<lparr>fileName = js ''t.csv'', fileSize = 6\<rparr>) (js ''.csv'')
   \<and> isValid (validateCSVContent toLocaleString_enUS [[js ''a''], [js ''b''], [js ''c'']])
   \<and> (\<exists>preview.
         SetPreview preview
           \<in> set (processFile toLocaleString_enUS \<lparr>fileName = js ''t.csv'', fileSize = 6\<rparr>
                    (Complete [[js ''a''], [js ''b''], [js ''c'']]))
         \<and> length preview = 3)"
proof -
  let ?f = "\<lparr>fileName = js ''t.csv'', fileSize = 6\<rparr>"
  have h1: "fileSize ?f \<le> 10485760" by simp
  have h2: "endsWith (fileName ?f) (js ''.csv'')"
    by (simp add: endsWith_def js_simps)
  from preview_first_five [OF h1 h2 valid_abc]
  obtain preview where
    "processFile toLocaleString_enUS ?f (Complete [[js ''a''], [js ''b''], [js ''c'']])
       = [SetIsValidating True, SetFile (Some ?f), PapaParse ?f, SetPreview preview,
          SetIsValidating False,
          Toast (js ''File validated'') (Some (js ''CSV file passed security checks'')) False]"
    and "length preview = min 5 (length [[js ''a''], [js ''b''], [js ''c'']])"
    by blast
  then have "SetPreview preview
               \<in> set (processFile toLocaleString_enUS ?f (Complete [[js ''a''], [js ''b''], [js ''c'']]))
             \<and> length preview = 3"
    by simp
  then show ?thesis using h1 h2 valid_abc by blast
qed

section \<open>The sanitizer\<close>

lemma removeMatches_class:
  "removeMatches (CharClass False atoms) False (b, a)
     = filter (\<lambda>c. \<not> classMatches False False atoms c) a"
proof (induction a arbitrary: b)
  case Nil
  show ?case by (simp add: removeMatches.simps [of _ _ b "[]"])
next
  case (Cons x a)
  show ?case
    by (simp add: removeMatches.simps [of _ _ b "x # a"] Cons.IH)
qed

lemma filter_id: "(\<And>x. x \<in> set xs \<Longrightarrow> P x) \<Longrightarrow> filter P xs = xs"
  by (induction xs) auto

lemma set_trim: "set (trim s) \<subseteq> set s"
proof -
  have "set (dropWhile isWhiteSpace (rev (dropWhile isWhiteSpace s)))
          \<subseteq> set (rev (dropWhile isWhiteSpace s))"
    by (rule set_dropWhileD [THEN subsetI])
  also have "\<dots> \<subseteq> set s"
    using set_dropWhileD [of _ isWhiteSpace s] by auto
  finally show ?thesis by (simp add: trim_def)
qed

lemma dropWhile_fixed: "xs = [] \<or> \<not> P (hd xs) \<Longrightarrow> dropWhile P xs = xs"
  by (cases xs) auto

lemma trim_ends:
  "trim s = [] \<or> (\<not> isWhiteSpace (hd (trim s)) \<and> \<not> isWhiteSpace (last (trim s)))"
proof (cases "trim s = []")
  case True
  then show ?thesis by simp
next
  case False
  let ?z = "dropWhile isWhiteSpace s"
  let ?t = "dropWhile isWhiteSpace (rev ?z)"
  have t: "trim s = rev ?t" by (simp add: trim_def)
  with False have tn: "?t \<noteq> []" by simp
  then have l: "\<not> isWhiteSpace (hd ?t)" by (rule hd_dropWhile)
  have "rev ?z = takeWhile isWhiteSpace (rev ?z) @ ?t" by simp
  then have "?z = rev ?t @ rev (takeWhile isWhiteSpace (rev ?z))"
    by (metis rev_append rev_rev_ident)
  then have "hd ?z = hd (rev ?t)" using tn by (metis hd_append2 rev_is_Nil_conv)
  moreover have "?z \<noteq> []"
  proof
    assume e: "?z = []"
    have "?t = []" by (simp only: e rev.simps dropWhile.simps)
    with tn show False by simp
  qed
  then have "\<not> isWhiteSpace (hd ?z)" by (rule hd_dropWhile)
  ultimately have h: "\<not> isWhiteSpace (hd (trim s))" using t by simp
  have "last (trim s) = hd ?t" using t tn by (simp add: last_rev)
  with l h show ?thesis by simp
qed

lemma trim_fixed:
  assumes "s = [] \<or> (\<not> isWhiteSpace (hd s) \<and> \<not> isWhiteSpace (last s))"
  shows "trim s = s"
proof (cases "s = []")
  case True
  then show ?thesis by (simp add: trim_def)
next
  case False
  with assms have h: "\<not> isWhiteSpace (hd s)" and l: "\<not> isWhiteSpace (last s)" by auto
  have 1: "dropWhile isWhiteSpace s = s" using h by (simp add: dropWhile_fixed)
  have "hd (rev s) = last s" using False by (simp add: hd_rev)
  then have 2: "dropWhile isWhiteSpace (rev s) = rev s" using l by (simp add: dropWhile_fixed)
  show ?thesis by (simp add: trim_def 1 2)
qed

lemma trim_idem: "trim (trim s) = trim s"
  by (rule trim_fixed) (rule trim_ends)

lemma sanitizeCell_filter:
  "sanitizeCell v
     = trim (filter (\<lambda>c. c \<noteq> 0x27 \<and> c \<noteq> 0x22 \<and> c \<noteq> 0x60 \<and> c \<noteq> 0x3B)
               (filter (\<lambda>c. c \<noteq> 0x3C \<and> c \<noteq> 0x3E) v))"
  by (simp add: sanitizeCell_def replaceWithEmpty_def anglePattern_def quotePattern_def
        removeMatches_class classMatches_def caseVariants_def code_def)

text \<open>
  Claim C7. \<open>sanitizeCell\<close> is idempotent: sanitizing a sanitized cell changes nothing.
  It removes the characters \<open><\<close>, \<open>>\<close>, the single and the double quote, the
  backtick and the semicolon, and then trims white space from both ends.
\<close>

theorem sanitizeCell_idempotent:
  "sanitizeCell (sanitizeCell x) = sanitizeCell x
   \<and> sanitizeCell x = trim (filter (\<lambda>c. c \<notin> {0x3C, 0x3E, 0x27, 0x22, 0x60, 0x3B}) x)"
proof -
  let ?P = "\<lambda>c::jschar. c \<noteq> 0x3C \<and> c \<noteq> 0x3E"
  let ?Q = "\<lambda>c::jschar. c \<noteq> 0x27 \<and> c \<noteq> 0x22 \<and> c \<noteq> 0x60 \<and> c \<noteq> 0x3B"
  let ?y = "filter ?Q (filter ?P x)"
  have s: "sanitizeCell x = trim ?y" by (rule sanitizeCell_filter)
  have sub: "set (trim ?y) \<subseteq> set ?y" by (rule set_trim)
  have p: "filter ?P (trim ?y) = trim ?y"
    by (rule filter_id) (use sub in auto)
  have q: "filter ?Q (trim ?y) = trim ?y"
    by (rule filter_id) (use sub in auto)
  have "sanitizeCell (trim ?y) = trim (filter ?Q (filter ?P (trim ?y)))"
    by (rule sanitizeCell_filter)
  also have "\<dots> = trim (trim ?y)" by (simp only: p q)
  also have "\<dots> = trim ?y" by (rule trim_idem)
  finally have i: "sanitizeCell (sanitizeCell x) = sanitizeCell x" by (simp only: s)
  have "?y = filter (\<lambda>c::jschar. c \<notin> {0x3C, 0x3E, 0x27, 0x22, 0x60, 0x3B}) x"
    by (induction x) auto
  with s have "sanitizeCell x = trim (filter (\<lambda>c. c \<notin> {0x3C, 0x3E, 0x27, 0x22, 0x60, 0x3B}) x)"
    by simp
  with i show ?thesis by simp
qed

theorem sanitizeCell_idempotent_witness:
  "sanitizeCell (js '' O'Brien; '') = js ''OBrien''
   \<and> sanitizeCell (sanitizeCell (js '' O'Brien; '')) = js ''OBrien''"
proof -
  note t = sanitizeCell_idempotent [of "js '' O'Brien; ''"]
  from t have a: "sanitizeCell (js '' O'Brien; '')
                    = trim (filter (\<lambda>c. c \<notin> {0x3C, 0x3E, 0x27, 0x22, 0x60, 0x3B})
                              (js '' O'Brien; ''))"
    by (rule conjunct2)
  have b: "trim (filter (\<lambda>c. c \<notin> {0x3C, 0x3E, 0x27, 0x22, 0x60, 0x3B}) (js '' O'Brien; ''))
             = js ''OBrien''"
    by (simp add: trim_def js_simps code_def isWhiteSpace_def)
  from t have c: "sanitizeCell (sanitizeCell (js '' O'Brien; '')) = sanitizeCell (js '' O'Brien; '')"
    by (rule conjunct1)
  from a b have d: "sanitizeCell (js '' O'Brien; '') = js ''OBrien''" by (rule trans)
  from c d have "sanitizeCell (sanitizeCell (js '' O'Brien; '')) = js ''OBrien''" by (rule trans)
  with d show ?thesis by (rule conjI)
qed

section \<open>The header check\<close>

lemma execFrom_LineStart:
  "0 < i \<Longrightarrow> execFrom (Seq LineStart r) ic s i = None"
proof (induction "Suc (length s) - i" arbitrary: i)
  case 0
  then show ?case by (simp add: execFrom.simps [of _ _ s i])
next
  case (Suc n)
  from Suc.hyps(2) have le: "i \<le> length s" by simp
  with Suc.prems have ne: "take i s \<noteq> []" by (cases s) auto
  have "execFrom (Seq LineStart r) ic s (i + 1) = None"
    using Suc.hyps(1) [of "i + 1"] Suc.hyps(2) by simp
  then show ?case
    using le ne by (simp add: execFrom.simps [of _ _ s i] posAt_def)
qed

lemma star_class_to_end:
  "matcher ic (Star (CharClass iv atoms)) (b, a) (\<lambda>q. if snd q = [] then Some q else None)
     = (if list_all (classMatches ic iv atoms) a then Some (rev a @ b, []) else None)"
proof (induction a arbitrary: b)
  case Nil
  show ?case by (simp add: matcher.simps(8))
next
  case (Cons x a)
  show ?case by (simp add: matcher.simps(8) [of _ _ "(b, x # a)"] Cons.IH)
qed

lemma header_class: 
  "classMatches False False
     [Range (code CHR ''a'') (code CHR ''z''), Range (code CHR ''A'') (code CHR ''Z''),
      Range (code CHR ''0'') (code CHR ''9''), Single (code CHR ''_''), ClassS] c
   = headerChar c"
  by (simp add: classMatches_def caseVariants_def headerChar_def code_def isAsciiLower_def
        isAsciiUpper_def isDigit_def)

lemma header_class_fun:
  "classMatches False False
     [Range (code CHR ''a'') (code CHR ''z''), Range (code CHR ''A'') (code CHR ''Z''),
      Range (code CHR ''0'') (code CHR ''9''), Single (code CHR ''_''), ClassS]
   = headerChar"
  by (rule ext) (rule header_class)

lemma headerPattern_test: "fst (test headerPattern h) = headerCellOk h"
proof (cases h)
  case Nil
  then show ?thesis
    by (simp add: test_def headerPattern_def Plus_def execFrom.simps [of _ _ "[]" 0] posAt_def
          execFrom_LineStart headerCellOk_def split: option.splits)
next
  case (Cons x a)
  then show ?thesis
    by (simp add: test_def headerPattern_def Plus_def execFrom.simps [of _ _ "x # a" 0] posAt_def
          execFrom_LineStart star_class_to_end header_class header_class_fun headerCellOk_def
          split: option.splits)
qed

lemma checkHeaders_filter:
  "checkHeaders hs i []
     = map (\<lambda>j. headerMessage (i + j) (hs ! j))
         (filter (\<lambda>j. \<not> headerCellOk (hs ! j)) [0..<length hs])"
proof (induction hs arbitrary: i)
  case Nil
  show ?case by simp
next
  case (Cons h hs)
  have u: "[0..<Suc (length hs)] = 0 # map Suc [0..<length hs]"
    by (simp add: upt_conv_Cons map_Suc_upt del: upt_Suc)
  show ?case
    using Cons.IH [of "i + 1"] checkHeaders_append [of hs "i + 1" "[headerMessage i h]"]
    by (simp add: u headerPattern_test filter_map comp_def del: upt_Suc)
qed


lemma header_error_member:
  assumes "data \<noteq> []" and "j < length (hd data)" and "\<not> headerCellOk (hd data ! j)"
  shows "headerMessage j (hd data ! j) \<in> set (errors (validateCSVContent loc data))"
proof -
  have "headerMessage (0 + j) (hd data ! j) \<in> set (checkHeaders (hd data) 0 [])"
    using assms(2,3) by (auto simp: checkHeaders_filter image_iff intro!: bexI [of _ j])
  then show ?thesis
    using validate_nonempty_errors [OF assms(1), of loc] by simp
qed

text \<open>
  Claim C10. In a non-empty table, a first-row cell that is the empty string gets the
  violation \<open>Invalid header at column n: ""\<close> for its 1-based column \<open>n\<close>, and the
  table is invalid: the header pattern asks for at least one character.
\<close>

theorem empty_header_cell_rejected:
  assumes "data \<noteq> []" and "j < length (hd data)" and "hd data ! j = []"
  shows "js ''Invalid header at column '' @ numberToString (j + 1) @ js '': '' @ [0x22, 0x22]
           \<in> set (errors (validateCSVContent loc data))
         \<and> \<not> isValid (validateCSVContent loc data)"
proof -
  have "\<not> headerCellOk (hd data ! j)" using assms(3) by (simp add: headerCellOk_def)
  from header_error_member [OF assms(1,2) this, of loc]
  have m: "js ''Invalid header at column '' @ numberToString (j + 1) @ js '': '' @ [0x22, 0x22]
           \<in> set (errors (validateCSVContent loc data))"
    by (simp add: headerMessage_def assms(3))
  then have "errors (validateCSVContent loc data) \<noteq> []" by auto
  then have "\<not> isValid (validateCSVContent loc data)"
    by (simp add: validateCSVContent_def Let_def split: if_splits)
  with m show ?thesis by simp
qed

theorem empty_header_cell_rejected_witness:
  "[[js ''id'', []]] \<noteq> [] \<and> (1::nat) < length (hd [[js ''id'', []]]) \<and> hd [[js ''id'', []]] ! 1 = []
   \<and> js ''Invalid header at column 2: '' @ [0x22, 0x22]
       \<in> set (errors (validateCSVContent toLocaleString_enUS [[js ''id'', []]]))"
  using empty_header_cell_rejected [of "[[js ''id'', []]]" 1 toLocaleString_enUS]
  by (simp add: numberToString.simps js_simps code_def)

text \<open>
  Claim C2, as stated: a first-row cell gets a header violation exactly when it contains
  a character outside letters, digits, underscore and space. The pattern accepts every
  white-space character, so a cell with a tab passes; and it rejects the empty cell,
  which has no character outside the set.
\<close>

theorem header_tab_accepted:
  "\<not> (isAsciiLower 0x09 \<or> isAsciiUpper 0x09 \<or> isDigit 0x09 \<or> (0x09::jschar) = 0x5F
        \<or> (0x09::jschar) = 0x20)
   \<and> errors (validateCSVContent toLocaleString_enUS [[[0x61, 0x09, 0x62]]]) = []
   \<and> errors (validateCSVContent toLocaleString_enUS [[[]]])
       = [js ''Invalid header at column 1: '' @ [0x22, 0x22]]"
  by (simp add: validateCSVContent_def js_simps char_defs re_defs scanCell_def MAX_ROWS_def
        headerMessage_def numberToString.simps)

text \<open>
  Claim C2, amended. For a table with at least one row, the header check appends, in
  column order, one violation for every first-row cell that is empty or contains a
  character that is not a letter, a digit, an underscore or a white-space character
  (the class \<open>\s\<close>: space, tab, line terminators and the other Unicode spaces); the
  violation names the 1-based column and the cell. Non-empty cells made of such
  characters only get no header violation.
\<close>

theorem header_check_characterised:
  assumes "data \<noteq> []"
  shows "errors (validateCSVContent loc data)
           = limitErrors loc data
             @ map (\<lambda>j. js ''Invalid header at column '' @ numberToString (j + 1) @ js '': ''
                          @ [0x22] @ hd data ! j @ [0x22])
                 (filter (\<lambda>j. hd data ! j = [] \<or> (\<exists>c \<in> set (hd data ! j). \<not> headerChar c))
                    [0..<length (hd data)])
             @ scanErrors (scanRows data 0 (initScan []))"
proof -
  have "(\<lambda>j. \<not> headerCellOk (hd data ! j))
          = (\<lambda>j. hd data ! j = [] \<or> (\<exists>c \<in> set (hd data ! j). \<not> headerChar c))"
    by (auto simp: headerCellOk_def list_all_iff)
  then show ?thesis
    using validate_nonempty_errors [OF assms, of loc] checkHeaders_filter [of "hd data" 0]
    by (simp add: headerMessage_def)
qed

theorem header_check_characterised_witness:
  "[[js ''a b'', js ''a.b'']] \<noteq> []
   \<and> errors (validateCSVContent toLocaleString_enUS [[js ''a b'', js ''a.b'']])
       = [js ''Invalid header at column 2: '' @ [0x22] @ js ''a.b'' @ [0x22]]"
proof -
  have s: "scanErrors (scanRows [[js ''a b'', js ''a.b'']] 0 (initScan [])) = []"
    by (simp add: initScan_def js_simps char_defs re_defs scanCell_def)
  have f: "filter (\<lambda>j. hd [[js ''a b'', js ''a.b'']] ! j = [] \<or> (\<exists>c \<in> set (hd [[js ''a b'', js ''a.b'']] ! j). \<not> headerChar c))
                    [0..<length (hd [[js ''a b'', js ''a.b'']])] = [1]"
    by (simp add: upt_rec js_simps headerChar_def char_defs)
  have "errors (validateCSVContent toLocaleString_enUS [[js ''a b'', js ''a.b'']])
           = limitErrors toLocaleString_enUS [[js ''a b'', js ''a.b'']]
             @ map (\<lambda>j. js ''Invalid header at column '' @ numberToString (j + 1) @ js '': ''
                          @ [0x22] @ hd [[js ''a b'', js ''a.b'']] ! j @ [0x22])
                 (filter (\<lambda>j. hd [[js ''a b'', js ''a.b'']] ! j = [] \<or> (\<exists>c \<in> set (hd [[js ''a b'', js ''a.b'']] ! j). \<not> headerChar c))
                    [0..<length (hd [[js ''a b'', js ''a.b'']])])
             @ scanErrors (scanRows [[js ''a b'', js ''a.b'']] 0 (initScan []))"
    by (rule header_check_characterised) simp
  then have "errors (validateCSVContent toLocaleString_enUS [[js ''a b'', js ''a.b'']])
           = limitErrors toLocaleString_enUS [[js ''a b'', js ''a.b'']]
             @ map (\<lambda>j. js ''Invalid header at column '' @ numberToString (j + 1) @ js '': ''
                          @ [0x22] @ hd [[js ''a b'', js ''a.b'']] ! j @ [0x22]) [1] @ []"
    by (simp only: f s)
  then show ?thesis
    by (simp add: limitErrors_def MAX_ROWS_def numberToString.simps js_simps code_def)
qed

section \<open>The injection scan\<close>

lemma execFrom_None_bound: "length s < i \<Longrightarrow> execFrom r ic s i = None"
  by (simp add: execFrom.simps [of _ _ s i])

lemma execFrom_mono:
  "i \<le> j \<Longrightarrow> execFrom r ic s j \<noteq> None \<Longrightarrow> execFrom r ic s i \<noteq> None"
proof (induction "j - i" arbitrary: i)
  case 0
  then show ?case by simp
next
  case (Suc n)
  have "j \<le> length s" using Suc.prems(2) execFrom_None_bound [of s j r ic] by (cases "j \<le> length s") auto
  with Suc.hyps(2) have le: "i \<le> length s" by simp
  have "execFrom r ic s (i + 1) \<noteq> None"
    using Suc.hyps(1) [of "i + 1"] Suc.hyps(2) Suc.prems by simp
  then show ?case
    using le by (simp add: execFrom.simps [of _ _ s i] split: option.splits)
qed

lemma execFrom_hit:
  "i \<le> length s \<Longrightarrow> matcher ic r (posAt s i) Some \<noteq> None \<Longrightarrow> execFrom r ic s i \<noteq> None"
  by (auto simp: execFrom.simps [of _ _ s i] split: option.splits)

lemma matchesClass_at:
  assumes "matcher (ignoreCase R) (pattern R) (rev pre, rest) Some \<noteq> None"
  shows "matchesClass R (pre @ rest)"
proof -
  have "posAt (pre @ rest) (length pre) = (rev pre, rest)" by (simp add: posAt_def)
  with assms have "execFrom (pattern R) (ignoreCase R) (pre @ rest) (length pre) \<noteq> None"
    by (intro execFrom_hit) simp_all
  then show ?thesis
    unfolding matchesClass_def by (rule execFrom_mono [rotated]) simp
qed

lemma test_fresh:
  "global R \<Longrightarrow> lastIndex R = 0 \<Longrightarrow> fst (test R s) = matchesClass R s"
  by (simp add: test_def matchesClass_def split: option.splits)

lemma test_sound: "fst (test R s) \<Longrightarrow> matchesClass R s"
proof -
  assume "fst (test R s)"
  then have "execFrom (pattern R) (ignoreCase R) s (if global R then lastIndex R else 0) \<noteq> None"
    by (auto simp: test_def split: option.splits)
  then show ?thesis
    unfolding matchesClass_def by (rule execFrom_mono [rotated]) simp
qed

lemma test_miss:
  "global R \<Longrightarrow> \<not> matchesClass R s \<Longrightarrow> test R s = (False, R\<lparr>lastIndex := 0\<rparr>)"
proof -
  assume g: "global R" and n: "\<not> matchesClass R s"
  have "execFrom (pattern R) (ignoreCase R) s (lastIndex R) = None"
  proof (rule ccontr)
    assume "execFrom (pattern R) (ignoreCase R) s (lastIndex R) \<noteq> None"
    then have "execFrom (pattern R) (ignoreCase R) s 0 \<noteq> None"
      by (rule execFrom_mono [rotated]) simp
    with n show False by (simp add: matchesClass_def)
  qed
  with g show ?thesis by (simp add: test_def)
qed

lemma test_state: "global R \<Longrightarrow> \<exists>n. snd (test R s) = R\<lparr>lastIndex := n\<rparr>"
  by (auto simp: test_def split: option.splits)

lemma matchesClass_lastIndex [simp]: "matchesClass (R\<lparr>lastIndex := n\<rparr>) s = matchesClass R s"
  by (simp add: matchesClass_def)

lemma global_sql [simp]: "global sqlPatterns" "lastIndex sqlPatterns = 0"
  by (simp_all add: sqlPatterns_def)

lemma global_script [simp]: "global scriptPatterns" "lastIndex scriptPatterns = 0"
  by (simp_all add: scriptPatterns_def)

lemma scanRow_fold: "scanRow row r c st = fold scanStep (rowCells row r c) st"
  by (induction row arbitrary: c st) (simp_all add: scanStep_def)

lemma scanRows_fold: "scanRows rows r st = fold scanStep (tableCells rows r) st"
  by (induction rows arbitrary: r st) (simp_all add: scanRow_fold)

lemma rowCells_nth:
  "k < length row \<Longrightarrow> rowCells row r c ! k = (r, c + k, row ! k)"
  by (induction row arbitrary: c k) (auto simp: nth_Cons split: nat.splits)

lemma length_rowCells [simp]: "length (rowCells row r c) = length row"
  by (induction row arbitrary: c) simp_all

lemma set_rowCells:
  "set (rowCells row r c) = {(r, c + k, row ! k) | k. k < length row}"
proof -
  have "set (rowCells row r c) = {rowCells row r c ! k | k. k < length (rowCells row r c)}"
    by (rule set_conv_nth)
  also have "\<dots> = {(r, c + k, row ! k) | k. k < length row}"
    by (simp add: rowCells_nth cong: rev_conj_cong)
  finally show ?thesis .
qed

lemma set_tableCells:
  "set (tableCells rows r0)
     = {(r0 + i, c, rows ! i ! c) | i c. i < length rows \<and> c < length (rows ! i)}"
proof (induction rows arbitrary: r0)
  case Nil
  show ?case by simp
next
  case (Cons row rows)
  have "{(r0 + i, c, (row # rows) ! i ! c) | i c. i < length (row # rows) \<and> c < length ((row # rows) ! i)}
          = {(r0, c, row ! c) | c. c < length row}
            \<union> {(r0 + 1 + i, c, rows ! i ! c) | i c. i < length rows \<and> c < length (rows ! i)}"
    (is "?L = ?A \<union> ?B")
  proof (intro set_eqI iffI)
    fix x assume "x \<in> ?L"
    then obtain i c where x: "x = (r0 + i, c, (row # rows) ! i ! c)"
      and i: "i < length (row # rows)" and c: "c < length ((row # rows) ! i)" by blast
    show "x \<in> ?A \<union> ?B"
    proof (cases i)
      case 0
      with x c show ?thesis by simp
    next
      case (Suc i')
      with x i c have "x = (r0 + 1 + i', c, rows ! i' ! c) \<and> i' < length rows \<and> c < length (rows ! i')"
        by simp
      then show ?thesis by blast
    qed
  next
    fix x assume "x \<in> ?A \<union> ?B"
    then show "x \<in> ?L"
    proof
      assume "x \<in> ?A"
      then obtain c where "x = (r0 + 0, c, (row # rows) ! 0 ! c)" "0 < length (row # rows)"
        "c < length ((row # rows) ! 0)" by auto
      then show ?thesis by blast
    next
      assume "x \<in> ?B"
      then obtain i c where "x = (r0 + Suc i, c, (row # rows) ! Suc i ! c)" "Suc i < length (row # rows)"
        "c < length ((row # rows) ! Suc i)" by auto
      then show ?thesis by blast
    qed
  qed
  then show ?case
    using Cons.IH [of "r0 + 1"] by (simp add: set_rowCells)
qed

lemma scanStep_sqlRe: "sqlRe (scanStep (r, c, x) st) = snd (test (sqlRe st) x)"
  by (simp add: scanStep_def scanCell_def Let_def split: prod.splits)

lemma scanStep_scriptRe: "scriptRe (scanStep (r, c, x) st) = snd (test (scriptRe st) x)"
  by (simp add: scanStep_def scanCell_def Let_def split: prod.splits)

lemma scanStep_errors:
  "scanErrors (scanStep (r, c, x) st)
     = scanErrors st @ (if fst (test (sqlRe st) x) then [sqlMessage r c] else [])
         @ (if fst (test (scriptRe st) x) then [scriptMessage r c] else [])"
  by (simp add: scanStep_def scanCell_def Let_def split: prod.splits)

lemma scanInv_step: "scanInv st \<Longrightarrow> scanInv (scanStep y st)"
proof -
  assume inv: "scanInv st"
  obtain r c x where y: "y = (r, c, x)" by (cases y)
  from inv obtain n m where s: "sqlRe st = sqlPatterns\<lparr>lastIndex := n\<rparr>"
    and t: "scriptRe st = scriptPatterns\<lparr>lastIndex := m\<rparr>"
    by (auto simp: scanInv_def)
  have "global (sqlRe st)" "global (scriptRe st)" by (simp_all add: s t)
  then obtain n' m' where "snd (test (sqlRe st) x) = (sqlRe st)\<lparr>lastIndex := n'\<rparr>"
    "snd (test (scriptRe st) x) = (scriptRe st)\<lparr>lastIndex := m'\<rparr>"
    using test_state [of "sqlRe st" x] test_state [of "scriptRe st" x] by blast
  then have "sqlRe (scanStep y st) = sqlPatterns\<lparr>lastIndex := n'\<rparr>"
    and "scriptRe (scanStep y st) = scriptPatterns\<lparr>lastIndex := m'\<rparr>"
    by (simp_all add: y scanStep_sqlRe scanStep_scriptRe s t)
  then show ?thesis
    unfolding scanInv_def by blast
qed

lemma scanInv_init: "scanInv (initScan errs)"
  unfolding scanInv_def initScan_def
  by (metis regexp.surjective regexp.update_convs(4) scan.select_convs(1,2) global_sql(2) global_script(2))

lemma fold_errors_grow: "\<exists>ys. scanErrors (fold scanStep L st) = scanErrors st @ ys"
proof (induction L arbitrary: st)
  case Nil
  show ?case by simp
next
  case (Cons y L)
  obtain r c x where y: "y = (r, c, x)" by (cases y)
  from Cons.IH [of "scanStep y st"] obtain ys
    where "scanErrors (fold scanStep L (scanStep y st)) = scanErrors (scanStep y st) @ ys" ..
  then show ?case by (simp add: y scanStep_errors)
qed

lemma fold_errors_keep:
  "e \<in> set (scanErrors st) \<Longrightarrow> e \<in> set (scanErrors (fold scanStep L st))"
  using fold_errors_grow [of L st] by auto

lemma sql_reported:
  assumes "scanInv st" and "k < length L"
    and "matchesClass sqlPatterns (snd (snd (L ! k)))"
    and "if k = 0 then lastIndex (sqlRe st) = 0
         else \<not> matchesClass sqlPatterns (snd (snd (L ! (k - 1))))"
  shows "sqlMessage (fst (L ! k)) (fst (snd (L ! k))) \<in> set (scanErrors (fold scanStep L st))"
  using assms
proof (induction L arbitrary: k st)
  case Nil
  then show ?case by simp
next
  case (Cons y L)
  obtain r c x where y: "y = (r, c, x)" by (cases y)
  from Cons.prems(1) obtain n where s: "sqlRe st = sqlPatterns\<lparr>lastIndex := n\<rparr>"
    by (auto simp: scanInv_def)
  then have g: "global (sqlRe st)" by simp
  show ?case
  proof (cases k)
    case 0
    with Cons.prems y have "lastIndex (sqlRe st) = 0" and "matchesClass sqlPatterns x" by simp_all
    then have "fst (test (sqlRe st) x)"
      using test_fresh [OF g, of x] by (simp add: s)
    then have "sqlMessage r c \<in> set (scanErrors (scanStep y st))"
      by (simp add: y scanStep_errors)
    then show ?thesis
      using 0 y by (simp add: fold_errors_keep)
  next
    case (Suc k')
    have inv: "scanInv (scanStep y st)" using Cons.prems(1) by (rule scanInv_step)
    have c: "if k' = 0 then lastIndex (sqlRe (scanStep y st)) = 0
             else \<not> matchesClass sqlPatterns (snd (snd (L ! (k' - 1))))"
    proof (cases k')
      case 0
      with Suc Cons.prems(4) y have "\<not> matchesClass (sqlRe st) x" by (simp add: s)
      from test_miss [OF g this] show ?thesis by (simp add: 0 y scanStep_sqlRe)
    next
      case (Suc k'')
      with \<open>k = Suc k'\<close> Cons.prems(4) show ?thesis by simp
    qed
    from Cons.IH [OF inv _ _ c] Cons.prems(2,3) Suc show ?thesis by simp
  qed
qed

lemma script_reported:
  assumes "scanInv st" and "k < length L"
    and "matchesClass scriptPatterns (snd (snd (L ! k)))"
    and "if k = 0 then lastIndex (scriptRe st) = 0
         else \<not> matchesClass scriptPatterns (snd (snd (L ! (k - 1))))"
  shows "scriptMessage (fst (L ! k)) (fst (snd (L ! k))) \<in> set (scanErrors (fold scanStep L st))"
  using assms
proof (induction L arbitrary: k st)
  case Nil
  then show ?case by simp
next
  case (Cons y L)
  obtain r c x where y: "y = (r, c, x)" by (cases y)
  from Cons.prems(1) obtain n where s: "scriptRe st = scriptPatterns\<lparr>lastIndex := n\<rparr>"
    by (auto simp: scanInv_def)
  then have g: "global (scriptRe st)" by simp
  show ?case
  proof (cases k)
    case 0
    with Cons.prems y have "lastIndex (scriptRe st) = 0" and "matchesClass scriptPatterns x"
      by simp_all
    then have "fst (test (scriptRe st) x)"
      using test_fresh [OF g, of x] by (simp add: s)
    then have "scriptMessage r c \<in> set (scanErrors (scanStep y st))"
      by (simp add: y scanStep_errors)
    then show ?thesis
      using 0 y by (simp add: fold_errors_keep)
  next
    case (Suc k')
    have inv: "scanInv (scanStep y st)" using Cons.prems(1) by (rule scanInv_step)
    have c: "if k' = 0 then lastIndex (scriptRe (scanStep y st)) = 0
             else \<not> matchesClass scriptPatterns (snd (snd (L ! (k' - 1))))"
    proof (cases k')
      case 0
      with Suc Cons.prems(4) y have "\<not> matchesClass (scriptRe st) x" by (simp add: s)
      from test_miss [OF g this] show ?thesis by (simp add: 0 y scanStep_scriptRe)
    next
      case (Suc k'')
      with \<open>k = Suc k'\<close> Cons.prems(4) show ?thesis by simp
    qed
    from Cons.IH [OF inv _ _ c] Cons.prems(2,3) Suc show ?thesis by simp
  qed
qed

lemma scan_sound:
  assumes "scanInv st"
  shows "\<exists>ys. scanErrors (fold scanStep L st) = scanErrors st @ ys
              \<and> subseq ys (concat (map statelessHits L))"
  using assms
proof (induction L arbitrary: st)
  case Nil
  show ?case by simp
next
  case (Cons y L)
  obtain r c x where y: "y = (r, c, x)" by (cases y)
  from Cons.prems obtain n m where s: "sqlRe st = sqlPatterns\<lparr>lastIndex := n\<rparr>"
    and t: "scriptRe st = scriptPatterns\<lparr>lastIndex := m\<rparr>"
    by (auto simp: scanInv_def)
  let ?a = "if fst (test (sqlRe st) x) then [sqlMessage r c] else []"
  let ?b = "if fst (test (scriptRe st) x) then [scriptMessage r c] else []"
  have a: "subseq ?a (if matchesClass sqlPatterns x then [sqlMessage r c] else [])"
    using test_sound [of "sqlRe st" x] by (auto simp: s)
  have b: "subseq ?b (if matchesClass scriptPatterns x then [scriptMessage r c] else [])"
    using test_sound [of "scriptRe st" x] by (auto simp: t)
  have ab: "subseq (?a @ ?b) (statelessHits y)"
    unfolding y statelessHits_def prod.case by (rule list_emb_append_mono [OF a b])
  from Cons.IH [OF scanInv_step [OF Cons.prems], of y] obtain ys
    where e: "scanErrors (fold scanStep L (scanStep y st)) = scanErrors (scanStep y st) @ ys"
      and q: "subseq ys (concat (map statelessHits L))" by blast
  have "scanErrors (fold scanStep (y # L) st) = scanErrors st @ ((?a @ ?b) @ ys)"
    using e by (simp add: y scanStep_errors)
  moreover have "subseq ((?a @ ?b) @ ys) (concat (map statelessHits (y # L)))"
    using list_emb_append_mono [OF ab q] by simp
  ultimately show ?case by blast
qed

lemma ne_of_mem: "x \<in> set xs \<Longrightarrow> xs \<noteq> []"
  by auto

lemma isValid_conv: "isValid (validateCSVContent loc data) = (errors (validateCSVContent loc data) = [])"
  by (simp add: validateCSVContent_def Let_def)

lemma drop_table_matches:
  assumes "pre = [] \<or> \<not> isWordChar (last pre)"
  shows "matchesClass sqlPatterns (pre @ js ''DROP TABLE'' @ post)"
proof (rule matchesClass_at)
  show "matcher (ignoreCase sqlPatterns) (pattern sqlPatterns) (rev pre, js ''DROP TABLE'' @ post) Some
          \<noteq> None"
  proof (cases "rev pre")
    case Nil
    then show ?thesis
      by (simp add: sqlPatterns_def lit_def js_simps char_defs)
  next
    case (Cons y ys)
    then have "pre \<noteq> []" and "last pre = y" by (auto simp: rev_eq_Cons_iff)
    with assms have "\<not> isWordChar y" by simp
    moreover have "isWordChar 0x44" "isWordChar 0x50" "\<not> isWordChar 0x20"
      by (simp_all add: isWordChar_def isAsciiLower_def isAsciiUpper_def isDigit_def)
    ultimately show ?thesis
      using Cons by (simp add: sqlPatterns_def lit_def js_simps code_def canonicalize_def isAsciiLower_def)
  qed
qed

lemma script_alert_matches:
  "matchesClass scriptPatterns (pre @ js ''<script>alert(1)</script>'' @ post)"
proof (rule matchesClass_at)
  show "matcher (ignoreCase scriptPatterns) (pattern scriptPatterns)
          (rev pre, js ''<script>alert(1)</script>'' @ post) Some \<noteq> None"
    by (simp add: scriptPatterns_def notLt_def lit_def js_simps char_defs matcher.simps(8))
qed


text \<open>
  What the scan does on a table with at least one row. It visits every cell of every
  row, the first row included, in row-major order. A cell that matches a class gets the
  violation of that class when it is the first cell visited or the cell visited just
  before it does not match the class. The violations of the scan are a subsequence of
  those that testing every cell from index 0 would give. A table with a matching cell
  is invalid. \<open>DROP TABLE\<close> with no word character directly before it matches the
  SQL class, and \<^verbatim>\<open><script>alert(1)</script>\<close> matches the script class.
\<close>

lemma scan_facts:
  assumes "data \<noteq> []"
  shows "set (tableCells data 0)
           = {(r, c, data ! r ! c) | r c. r < length data \<and> c < length (data ! r)}
         \<and> (\<forall>k < length (tableCells data 0).
               matchesClass sqlPatterns (snd (snd (tableCells data 0 ! k)))
               \<and> (k = 0 \<or> \<not> matchesClass sqlPatterns (snd (snd (tableCells data 0 ! (k - 1)))))
               \<longrightarrow> sqlMessage (fst (tableCells data 0 ! k)) (fst (snd (tableCells data 0 ! k)))
                     \<in> set (errors (validateCSVContent loc data)))
         \<and> (\<forall>k < length (tableCells data 0).
               matchesClass scriptPatterns (snd (snd (tableCells data 0 ! k)))
               \<and> (k = 0 \<or> \<not> matchesClass scriptPatterns (snd (snd (tableCells data 0 ! (k - 1)))))
               \<longrightarrow> scriptMessage (fst (tableCells data 0 ! k)) (fst (snd (tableCells data 0 ! k)))
                     \<in> set (errors (validateCSVContent loc data)))
         \<and> (\<exists>ys. errors (validateCSVContent loc data)
                     = limitErrors loc data @ checkHeaders (hd data) 0 [] @ ys
                   \<and> subseq ys (concat (map statelessHits (tableCells data 0))))
         \<and> ((\<exists>y \<in> set (tableCells data 0).
                matchesClass sqlPatterns (snd (snd y)) \<or> matchesClass scriptPatterns (snd (snd y)))
              \<longrightarrow> \<not> isValid (validateCSVContent loc data))
         \<and> (\<forall>pre post. pre = [] \<or> \<not> isWordChar (last pre)
               \<longrightarrow> matchesClass sqlPatterns (pre @ js ''DROP TABLE'' @ post))
         \<and> (\<forall>pre post. matchesClass scriptPatterns (pre @ js ''<script>alert(1)</script>'' @ post))"
proof -
  let ?L = "tableCells data 0"
  let ?E = "errors (validateCSVContent loc data)"
  have E: "?E = limitErrors loc data @ checkHeaders (hd data) 0 []
                 @ scanErrors (fold scanStep ?L (initScan []))"
    using validate_nonempty_errors [OF assms, of loc] by (simp add: scanRows_fold)
  have li: "lastIndex (sqlRe (initScan [])) = 0" "lastIndex (scriptRe (initScan [])) = 0"
    by (simp_all add: initScan_def)
  have 1: "set ?L = {(r, c, data ! r ! c) | r c. r < length data \<and> c < length (data ! r)}"
    using set_tableCells [of data 0] by simp
  have 2: "sqlMessage (fst (?L ! k)) (fst (snd (?L ! k))) \<in> set ?E"
    if "k < length ?L" and "matchesClass sqlPatterns (snd (snd (?L ! k)))"
      and "k = 0 \<or> \<not> matchesClass sqlPatterns (snd (snd (?L ! (k - 1))))" for k
  proof -
    have "if k = 0 then lastIndex (sqlRe (initScan [])) = 0
          else \<not> matchesClass sqlPatterns (snd (snd (?L ! (k - 1))))"
      using that(3) li by auto
    from sql_reported [OF scanInv_init that(1,2) this] show ?thesis by (simp add: E)
  qed
  have 3: "scriptMessage (fst (?L ! k)) (fst (snd (?L ! k))) \<in> set ?E"
    if "k < length ?L" and "matchesClass scriptPatterns (snd (snd (?L ! k)))"
      and "k = 0 \<or> \<not> matchesClass scriptPatterns (snd (snd (?L ! (k - 1))))" for k
  proof -
    have "if k = 0 then lastIndex (scriptRe (initScan [])) = 0
          else \<not> matchesClass scriptPatterns (snd (snd (?L ! (k - 1))))"
      using that(3) li by auto
    from script_reported [OF scanInv_init that(1,2) this] show ?thesis by (simp add: E)
  qed
  have 4: "\<exists>ys. ?E = limitErrors loc data @ checkHeaders (hd data) 0 [] @ ys
                \<and> subseq ys (concat (map statelessHits ?L))"
    using scan_sound [OF scanInv_init, of ?L "[]"] by (auto simp: E initScan_def)
  have first: "\<exists>k. k < length ?L \<and> P (?L ! k) \<and> (k = 0 \<or> \<not> P (?L ! (k - 1)))"
    if "\<exists>y \<in> set ?L. P y" for P
  proof -
    from that obtain j where j: "j < length ?L \<and> P (?L ! j)" by (metis in_set_conv_nth)
    define k where "k = (LEAST j. j < length ?L \<and> P (?L ! j))"
    have k: "k < length ?L \<and> P (?L ! k)" unfolding k_def using j by (rule LeastI)
    have "\<not> P (?L ! (k - 1))" if "k \<noteq> 0"
    proof
      assume "P (?L ! (k - 1))"
      moreover from k have "k - 1 < length ?L" by arith
      ultimately have "k - 1 < length ?L \<and> P (?L ! (k - 1))" by simp
      then have "k \<le> k - 1" unfolding k_def by (rule Least_le)
      with that show False by simp
    qed
    then have "k = 0 \<or> \<not> P (?L ! (k - 1))" by (cases "k = 0") simp_all
    with k have "k < length ?L \<and> P (?L ! k) \<and> (k = 0 \<or> \<not> P (?L ! (k - 1)))" by simp
    then show ?thesis by (rule exI [of _ k])
  qed
  have 5: "\<not> isValid (validateCSVContent loc data)"
    if h: "\<exists>y \<in> set ?L. matchesClass sqlPatterns (snd (snd y)) \<or> matchesClass scriptPatterns (snd (snd y))"
  proof -
    from h have "(\<exists>y \<in> set ?L. matchesClass sqlPatterns (snd (snd y)))
                 \<or> (\<exists>y \<in> set ?L. matchesClass scriptPatterns (snd (snd y)))" by blast
    then have "?E \<noteq> []"
    proof
      assume "\<exists>y \<in> set ?L. matchesClass sqlPatterns (snd (snd y))"
      from first [of "\<lambda>y. matchesClass sqlPatterns (snd (snd y))", OF this]
      obtain k where "k < length ?L" "matchesClass sqlPatterns (snd (snd (?L ! k)))"
        "k = 0 \<or> \<not> matchesClass sqlPatterns (snd (snd (?L ! (k - 1))))" by blast
      from 2 [OF this] show ?thesis by (rule ne_of_mem)
    next
      assume "\<exists>y \<in> set ?L. matchesClass scriptPatterns (snd (snd y))"
      from first [of "\<lambda>y. matchesClass scriptPatterns (snd (snd y))", OF this]
      obtain k where "k < length ?L" "matchesClass scriptPatterns (snd (snd (?L ! k)))"
        "k = 0 \<or> \<not> matchesClass scriptPatterns (snd (snd (?L ! (k - 1))))" by blast
      from 3 [OF this] show ?thesis by (rule ne_of_mem)
    qed
    then show ?thesis by (simp add: isValid_conv)
  qed
  show ?thesis
  proof (intro conjI allI impI)
    show "set ?L = {(r, c, data ! r ! c) | r c. r < length data \<and> c < length (data ! r)}"
      by (rule 1)
    show "sqlMessage (fst (?L ! k)) (fst (snd (?L ! k))) \<in> set ?E"
      if "k < length ?L" and "matchesClass sqlPatterns (snd (snd (?L ! k)))
        \<and> (k = 0 \<or> \<not> matchesClass sqlPatterns (snd (snd (?L ! (k - 1)))))" for k
      using that by (intro 2) simp_all
    show "scriptMessage (fst (?L ! k)) (fst (snd (?L ! k))) \<in> set ?E"
      if "k < length ?L" and "matchesClass scriptPatterns (snd (snd (?L ! k)))
        \<and> (k = 0 \<or> \<not> matchesClass scriptPatterns (snd (snd (?L ! (k - 1)))))" for k
      using that by (intro 3) simp_all
    show "\<exists>ys. ?E = limitErrors loc data @ checkHeaders (hd data) 0 [] @ ys
                \<and> subseq ys (concat (map statelessHits ?L))"
      by (rule 4)
    show "\<not> isValid (validateCSVContent loc data)"
      if "\<exists>y \<in> set ?L. matchesClass sqlPatterns (snd (snd y)) \<or> matchesClass scriptPatterns (snd (snd y))"
      using that by (rule 5)
    show "matchesClass sqlPatterns (pre @ js ''DROP TABLE'' @ post)"
      if "pre = [] \<or> \<not> isWordChar (last pre)" for pre post
      using that by (rule drop_table_matches)
    show "matchesClass scriptPatterns (pre @ js ''<script>alert(1)</script>'' @ post)" for pre post
      by (rule script_alert_matches)
  qed
qed

section \<open>The row limit\<close>

text \<open>
  Claim C6. A table of more than 100,000 rows gets the violation that names the limit,
  and validation goes on: the violations of the header check and of the injection scan
  follow it. Every invalid header cell has its violation in the report, next to the
  one of the row limit; and the scan runs over all the cells of the table: a cell that
  matches the SQL class or the script class, and is the first cell visited or comes
  right after a cell that does not match that class, has its injection violation in the
  report.
\<close>

theorem row_limit_accumulates:
  assumes "length data > 100000"
  shows "errors (validateCSVContent loc data)
           = (js ''CSV exceeds maximum row limit of '' @ loc 100000)
             # checkHeaders (hd data) 0 [] @ scanErrors (scanRows data 0 (initScan []))
         \<and> (\<forall>j < length (hd data). \<not> headerCellOk (hd data ! j)
               \<longrightarrow> headerMessage j (hd data ! j) \<in> set (errors (validateCSVContent loc data)))
         \<and> set (tableCells data 0)
             = {(r, c, data ! r ! c) | r c. r < length data \<and> c < length (data ! r)}
         \<and> (\<forall>k < length (tableCells data 0).
               matchesClass sqlPatterns (snd (snd (tableCells data 0 ! k)))
               \<and> (k = 0 \<or> \<not> matchesClass sqlPatterns (snd (snd (tableCells data 0 ! (k - 1)))))
               \<longrightarrow> sqlMessage (fst (tableCells data 0 ! k)) (fst (snd (tableCells data 0 ! k)))
                     \<in> set (errors (validateCSVContent loc data)))
         \<and> (\<forall>k < length (tableCells data 0).
               matchesClass scriptPatterns (snd (snd (tableCells data 0 ! k)))
               \<and> (k = 0 \<or> \<not> matchesClass scriptPatterns (snd (snd (tableCells data 0 ! (k - 1)))))
               \<longrightarrow> scriptMessage (fst (tableCells data 0 ! k)) (fst (snd (tableCells data 0 ! k)))
                     \<in> set (errors (validateCSVContent loc data)))"
proof -
  from assms have ne: "data \<noteq> []" by auto
  note f = scan_facts [OF ne, of loc]
  have a: "errors (validateCSVContent loc data)
           = (js ''CSV exceeds maximum row limit of '' @ loc 100000)
             # checkHeaders (hd data) 0 [] @ scanErrors (scanRows data 0 (initScan []))"
    using validate_nonempty_errors [OF ne, of loc] assms by (simp add: limitErrors_def MAX_ROWS_def)
  have b: "\<forall>j < length (hd data). \<not> headerCellOk (hd data ! j)
               \<longrightarrow> headerMessage j (hd data ! j) \<in> set (errors (validateCSVContent loc data))"
    by (simp add: header_error_member [OF ne])
  from f have c: "set (tableCells data 0)
             = {(r, c, data ! r ! c) | r c. r < length data \<and> c < length (data ! r)}"
    by (rule conjunct1)
  from f have d: "\<forall>k < length (tableCells data 0).
               matchesClass sqlPatterns (snd (snd (tableCells data 0 ! k)))
               \<and> (k = 0 \<or> \<not> matchesClass sqlPatterns (snd (snd (tableCells data 0 ! (k - 1)))))
               \<longrightarrow> sqlMessage (fst (tableCells data 0 ! k)) (fst (snd (tableCells data 0 ! k)))
                     \<in> set (errors (validateCSVContent loc data))"
    by (rule conjunct1 [OF conjunct2])
  from f have e: "\<forall>k < length (tableCells data 0).
               matchesClass scriptPatterns (snd (snd (tableCells data 0 ! k)))
               \<and> (k = 0 \<or> \<not> matchesClass scriptPatterns (snd (snd (tableCells data 0 ! (k - 1)))))
               \<longrightarrow> scriptMessage (fst (tableCells data 0 ! k)) (fst (snd (tableCells data 0 ! k)))
                     \<in> set (errors (validateCSVContent loc data))"
    by (rule conjunct1 [OF conjunct2 [OF conjunct2]])
  show ?thesis
    by (rule conjI [OF a conjI [OF b conjI [OF c conjI [OF d e]]]])
qed

theorem row_limit_accumulates_witness:
  "length ([js ''a.b'', js ''DROP TABLE'', js ''<script>alert(1)</script>'']
             # replicate 100000 [js ''x'']) > 100000
   \<and> js ''CSV exceeds maximum row limit of 100,000''
       \<in> set (errors (validateCSVContent toLocaleString_enUS
                  ([js ''a.b'', js ''DROP TABLE'', js ''<script>alert(1)</script>'']
                     # replicate 100000 [js ''x''])))
   \<and> js ''Invalid header at column 1: '' @ [0x22] @ js ''a.b'' @ [0x22]
       \<in> set (errors (validateCSVContent toLocaleString_enUS
                  ([js ''a.b'', js ''DROP TABLE'', js ''<script>alert(1)</script>'']
                     # replicate 100000 [js ''x''])))
   \<and> js ''Potential SQL injection detected at row 1, column 2''
       \<in> set (errors (validateCSVContent toLocaleString_enUS
                  ([js ''a.b'', js ''DROP TABLE'', js ''<script>alert(1)</script>'']
                     # replicate 100000 [js ''x''])))
   \<and> js ''Potential script injection detected at row 1, column 3''
       \<in> set (errors (validateCSVContent toLocaleString_enUS
                  ([js ''a.b'', js ''DROP TABLE'', js ''<script>alert(1)</script>'']
                     # replicate 100000 [js ''x''])))"
proof -
  let ?row = "[js ''a.b'', js ''DROP TABLE'', js ''<script>alert(1)</script>'']"
  let ?d = "?row # replicate 100000 [js ''x'']"
  let ?L = "tableCells ?d 0"
  let ?E = "errors (validateCSVContent toLocaleString_enUS ?d)"
  have l: "length ?d > 100000" by simp
  have h: "hd ?d = ?row" by simp
  have L: "?L = [(0, 0, js ''a.b''), (0, 1, js ''DROP TABLE''),
                 (0, 2, js ''<script>alert(1)</script>'')]
                @ tableCells (replicate 100000 [js ''x'']) 1"
    by simp
  have L1: "?L ! 0 = (0, 0, js ''a.b'')" "?L ! 1 = (0, 1, js ''DROP TABLE'')"
    "?L ! 2 = (0, 2, js ''<script>alert(1)</script>'')" "1 < length ?L" "2 < length ?L"
    unfolding L by simp_all
  have bad: "\<not> headerCellOk (js ''a.b'')"
    by (simp add: headerCellOk_def headerChar_def js_simps char_defs)
  have m1: "matchesClass sqlPatterns (js ''DROP TABLE'')"
    using drop_table_matches [of "[]" "[]"] by simp
  have n1: "\<not> matchesClass sqlPatterns (js ''a.b'')"
    by (simp add: matchesClass_def js_simps char_defs re_defs)
  have m2: "matchesClass scriptPatterns (js ''<script>alert(1)</script>'')"
    using script_alert_matches [of "[]" "[]"] by simp
  have n2: "\<not> matchesClass scriptPatterns (js ''DROP TABLE'')"
    by (simp add: matchesClass_def js_simps char_defs re_defs)
  note t = row_limit_accumulates [OF l, of toLocaleString_enUS]
  from t have "?E = (js ''CSV exceeds maximum row limit of '' @ toLocaleString_enUS 100000)
             # checkHeaders (hd ?d) 0 [] @ scanErrors (scanRows ?d 0 (initScan []))"
    by (rule conjunct1)
  then have "js ''CSV exceeds maximum row limit of '' @ toLocaleString_enUS 100000 \<in> set ?E"
    by (simp only: list.set_intros(1))
  moreover have "js ''CSV exceeds maximum row limit of '' @ toLocaleString_enUS 100000
                   = js ''CSV exceeds maximum row limit of 100,000''"
    by (simp add: toLocaleString_enUS.simps numberToString.simps js_simps code_def)
  ultimately have 1: "js ''CSV exceeds maximum row limit of 100,000'' \<in> set ?E" by simp
  from t have "\<forall>j < length (hd ?d). \<not> headerCellOk (hd ?d ! j)
               \<longrightarrow> headerMessage j (hd ?d ! j) \<in> set ?E"
    by (rule conjunct1 [OF conjunct2])
  then have "0 < length (hd ?d) \<longrightarrow> \<not> headerCellOk (hd ?d ! 0)
               \<longrightarrow> headerMessage 0 (hd ?d ! 0) \<in> set ?E"
    by (rule spec)
  then have "headerMessage 0 (js ''a.b'') \<in> set ?E"
    unfolding h using bad by simp
  moreover have "headerMessage 0 (js ''a.b'')
                   = js ''Invalid header at column 1: '' @ [0x22] @ js ''a.b'' @ [0x22]"
    by (simp add: headerMessage_def numberToString.simps js_simps code_def)
  ultimately have 2: "js ''Invalid header at column 1: '' @ [0x22] @ js ''a.b'' @ [0x22] \<in> set ?E"
    by simp
  from t have "\<forall>k < length ?L.
               matchesClass sqlPatterns (snd (snd (?L ! k)))
               \<and> (k = 0 \<or> \<not> matchesClass sqlPatterns (snd (snd (?L ! (k - 1)))))
               \<longrightarrow> sqlMessage (fst (?L ! k)) (fst (snd (?L ! k))) \<in> set ?E"
    by (rule conjunct1 [OF conjunct2 [OF conjunct2 [OF conjunct2]]])
  then have "1 < length ?L \<longrightarrow>
               matchesClass sqlPatterns (snd (snd (?L ! 1)))
               \<and> (1 = (0::nat) \<or> \<not> matchesClass sqlPatterns (snd (snd (?L ! (1 - 1)))))
               \<longrightarrow> sqlMessage (fst (?L ! 1)) (fst (snd (?L ! 1))) \<in> set ?E"
    by (rule spec)
  then have "sqlMessage 0 1 \<in> set ?E"
    using L1 m1 n1 by simp
  moreover have "sqlMessage 0 1 = js ''Potential SQL injection detected at row 1, column 2''"
    by (simp add: sqlMessage_def numberToString.simps js_simps code_def)
  ultimately have 3: "js ''Potential SQL injection detected at row 1, column 2'' \<in> set ?E"
    by simp
  from t have "\<forall>k < length ?L.
               matchesClass scriptPatterns (snd (snd (?L ! k)))
               \<and> (k = 0 \<or> \<not> matchesClass scriptPatterns (snd (snd (?L ! (k - 1)))))
               \<longrightarrow> scriptMessage (fst (?L ! k)) (fst (snd (?L ! k))) \<in> set ?E"
    by (rule conjunct2 [OF conjunct2 [OF conjunct2 [OF conjunct2]]])
  then have "2 < length ?L \<longrightarrow>
               matchesClass scriptPatterns (snd (snd (?L ! 2)))
               \<and> (2 = (0::nat) \<or> \<not> matchesClass scriptPatterns (snd (snd (?L ! (2 - 1)))))
               \<longrightarrow> scriptMessage (fst (?L ! 2)) (fst (snd (?L ! 2))) \<in> set ?E"
    by (rule spec)
  then have "scriptMessage 0 2 \<in> set ?E"
    using L1 m2 n2 by (simp add: numeral_2_eq_2)
  moreover have "scriptMessage 0 2 = js ''Potential script injection detected at row 1, column 3''"
    by (simp add: scriptMessage_def numberToString.simps js_simps code_def)
  ultimately have 4: "js ''Potential script injection detected at row 1, column 3'' \<in> set ?E"
    by simp
  show ?thesis
    by (rule conjI [OF l conjI [OF 1 conjI [OF 2 conjI [OF 3 4]]]])
qed

section \<open>Cells after a hit\<close>

text \<open>
  Claim C1. The injection scan tests every cell of every row against the SQL class and
  the script class, and every cell that matches a class gets a violation with its
  1-based row and column, however many other cells match. The code does not do that.
  Both patterns are global, so \<open>test\<close> starts at the \<open>lastIndex\<close> that a hit in the
  cell before left behind. In the row \<open>DROP TABLE t\<close>, \<open>DROP TABLE\<close> the second cell
  matches the SQL class, but it is searched from index 4 on and gets no violation. In
  the row \<open>onload=1\<close>, \<^verbatim>\<open><script>alert(1)</script>\<close> the second cell matches the script
  class, but it is searched from index 7 on and gets no violation.
\<close>

theorem later_match_missed:
  "matchesClass sqlPatterns (js ''DROP TABLE'')
   \<and> errors (validateCSVContent toLocaleString_enUS [[js ''DROP TABLE t'', js ''DROP TABLE'']])
       = [js ''Potential SQL injection detected at row 1, column 1'']
   \<and> matchesClass scriptPatterns (js ''<script>alert(1)</script>'')
   \<and> errors (validateCSVContent toLocaleString_enUS
         [[js ''h''], [js ''onload=1'', js ''<script>alert(1)</script>'']])
       = [js ''Potential script injection detected at row 2, column 1'']"
proof -
  have a: "matchesClass sqlPatterns (js ''DROP TABLE'')"
    using drop_table_matches [of "[]" "[]"] by simp
  have b: "errors (validateCSVContent toLocaleString_enUS [[js ''DROP TABLE t'', js ''DROP TABLE'']])
       = [js ''Potential SQL injection detected at row 1, column 1'']"
    by (simp add: validateCSVContent_def js_simps char_defs re_defs scanCell_def MAX_ROWS_def
          sqlMessage_def numberToString.simps)
  have c: "matchesClass scriptPatterns (js ''<script>alert(1)</script>'')"
    using script_alert_matches [of "[]" "[]"] by simp
  have d: "errors (validateCSVContent toLocaleString_enUS
         [[js ''h''], [js ''onload=1'', js ''<script>alert(1)</script>'']])
       = [js ''Potential script injection detected at row 2, column 1'']"
    by (simp add: validateCSVContent_def js_simps char_defs re_defs scanCell_def MAX_ROWS_def
          scriptMessage_def numberToString.simps)
  show ?thesis
    by (rule conjI [OF a conjI [OF b conjI [OF c d]]])
qed

end
